theory Spec2Isabelle
  imports Complex_Main "HOL-Library.Multiset"
begin

section \<open>Bandwidth allocation: the greedy and the exact allocator\<close>

text \<open>
  The two allocators of \<^verbatim>\<open>bandwidth_allocation.py\<close>, embedded as the code is written.
  Python integers are \<^typ>\<open>int\<close>. Python floats are idealised as \<^typ>\<open>real\<close> numbers with
  exact arithmetic (the data model speaks of real utilities); rounding, infinities and
  NaN are outside the model. A raised exception is the left injection of a sum.
\<close>

subsection \<open>Python lists, exceptions and loops\<close>

datatype error = IndexError | ZeroDivisionError

definition then_do :: "error + 'a \<Rightarrow> ('a \<Rightarrow> error + 'b) \<Rightarrow> error + 'b" where
  \<comment> \<open>sequencing: an exception of the first computation skips the second\<close>
  "then_do m f = (case m of Inl e \<Rightarrow> Inl e | Inr x \<Rightarrow> f x)"

definition item :: "'a list \<Rightarrow> int \<Rightarrow> error + 'a" where
  \<comment> \<open>\<^verbatim>\<open>xs[i]\<close>: the indices 0 .. len-1 read from the front, -len .. -1 from the end,
      any other index raises\<close>
  "item xs i =
     (if 0 \<le> i \<and> i < int (length xs) then Inr (xs ! nat i)
      else if - int (length xs) \<le> i \<and> i < 0 then Inr (xs ! nat (int (length xs) + i))
      else Inl IndexError)"

definition set_item :: "'a list \<Rightarrow> int \<Rightarrow> 'a \<Rightarrow> error + 'a list" where
  \<comment> \<open>\<^verbatim>\<open>xs[i] = v\<close>, with the same index rule\<close>
  "set_item xs i v =
     (if 0 \<le> i \<and> i < int (length xs) then Inr (xs[nat i := v])
      else if - int (length xs) \<le> i \<and> i < 0 then Inr (xs[nat (int (length xs) + i) := v])
      else Inl IndexError)"

definition range_py :: "int \<Rightarrow> int \<Rightarrow> int list" where
  \<comment> \<open>\<^verbatim>\<open>range(a, b)\<close>: a, a+1, ..., b-1; empty when b <= a\<close>
  "range_py a b = map (\<lambda>k. a + int k) [0..<nat (b - a)]"

fun for_loop :: "'i list \<Rightarrow> ('i \<Rightarrow> 's \<Rightarrow> error + 's) \<Rightarrow> 's \<Rightarrow> error + 's" where
  \<comment> \<open>\<^verbatim>\<open>for x in xs: body\<close> over the loop's state; an exception leaves the loop\<close>
  "for_loop [] body s = Inr s"
| "for_loop (x # xs) body s = then_do (body x s) (for_loop xs body)"

fun comprehension :: "('i \<Rightarrow> error + 'a) \<Rightarrow> 'i list \<Rightarrow> error + 'a list" where
  \<comment> \<open>\<^verbatim>\<open>[f(x) for x in xs]\<close>, evaluated left to right\<close>
  "comprehension f [] = Inr []"
| "comprehension f (x # xs) =
     then_do (f x) (\<lambda>y. then_do (comprehension f xs) (\<lambda>ys. Inr (y # ys)))"

subsection \<open>The greedy allocator\<close>

definition efficiency :: "int list \<Rightarrow> real list \<Rightarrow> int \<Rightarrow> error + (int \<times> real)" where
  \<comment> \<open>\<^verbatim>\<open>(i, utilities[i] / demands[i])\<close>; dividing by a zero demand raises\<close>
  "efficiency demands utilities i =
     then_do (item utilities i) (\<lambda>u.
     then_do (item demands i) (\<lambda>d.
     if d = 0 then Inl ZeroDivisionError else Inr (i, u / real_of_int d)))"

definition greedy_step ::
  "int list \<Rightarrow> real list \<Rightarrow> int \<Rightarrow> int \<times> real \<Rightarrow> int list \<times> int \<times> real
     \<Rightarrow> error + (int list \<times> int \<times> real)" where
  \<comment> \<open>the body of \<^verbatim>\<open>for idx, _ in users\<close> on (allocations, used_capacity, total_utility)\<close>
  "greedy_step demands utilities capacity user st =
     (case st of (allocations, used_capacity, total_utility) \<Rightarrow>
      let idx = fst user in
      then_do (item demands idx) (\<lambda>d.
      if used_capacity + d \<le> capacity then
        then_do (set_item allocations idx 1) (\<lambda>allocations'.
        then_do (item demands idx) (\<lambda>d'.
        then_do (item utilities idx) (\<lambda>u.
        Inr (allocations', used_capacity + d', total_utility + u))))
      else Inr (allocations, used_capacity, total_utility)))"

definition greedy_bandwidth_allocation ::
  "int list \<Rightarrow> real list \<Rightarrow> int \<Rightarrow> error + (int list \<times> real)" where
  \<comment> \<open>\<^verbatim>\<open>users.sort(key=lambda x: x[1], reverse=True)\<close> is a stable sort by decreasing
      efficiency: the stable sort by increasing negated efficiency\<close>
  "greedy_bandwidth_allocation demands utilities capacity =
     (let n = int (length demands) in
      then_do (comprehension (efficiency demands utilities) (range_py 0 n)) (\<lambda>users0.
      let users = sort_key (\<lambda>x. - snd x) users0 in
      then_do (for_loop users (greedy_step demands utilities capacity)
                 (replicate (nat n) 0, 0, 0)) (\<lambda>st.
      Inr (fst st, snd (snd st)))))"

subsection \<open>The exact allocator\<close>

definition set_cell :: "real list list \<Rightarrow> int \<Rightarrow> int \<Rightarrow> real \<Rightarrow> error + real list list" where
  \<comment> \<open>\<^verbatim>\<open>dp[i][c] = v\<close>; every row of the table is a list of its own\<close>
  "set_cell dp i c v =
     then_do (item dp i) (\<lambda>row.
     then_do (set_item row c v) (\<lambda>row'.
     set_item dp i row'))"

definition fill_cell ::
  "int list \<Rightarrow> real list \<Rightarrow> int \<Rightarrow> int \<Rightarrow> real list list \<Rightarrow> error + real list list" where
  \<comment> \<open>the body of \<^verbatim>\<open>for c in range(capacity + 1)\<close> inside \<^verbatim>\<open>for i in range(1, n + 1)\<close>\<close>
  "fill_cell demands utilities i c dp =
     then_do (item dp (i - 1)) (\<lambda>prev.
     then_do (item prev c) (\<lambda>skip.
     then_do (set_cell dp i c skip) (\<lambda>dp1.
     then_do (item demands (i - 1)) (\<lambda>d.
     if d \<le> c then
       then_do (item dp1 i) (\<lambda>row.
       then_do (item row c) (\<lambda>cur.
       then_do (item dp1 (i - 1)) (\<lambda>prev1.
       then_do (item demands (i - 1)) (\<lambda>d'.
       then_do (item prev1 (c - d')) (\<lambda>rest.
       then_do (item utilities (i - 1)) (\<lambda>u.
       set_cell dp1 i c (max cur (rest + u))))))))
     else Inr dp1))))"

definition fill_table ::
  "int list \<Rightarrow> real list \<Rightarrow> int \<Rightarrow> real list list \<Rightarrow> error + real list list" where
  \<comment> \<open>the two nested loops that fill the table\<close>
  "fill_table demands utilities capacity dp =
     for_loop (range_py 1 (int (length demands) + 1))
       (\<lambda>i. for_loop (range_py 0 (capacity + 1)) (fill_cell demands utilities i)) dp"

definition backtrack_step ::
  "int list \<Rightarrow> real list list \<Rightarrow> int \<Rightarrow> int list \<times> int \<Rightarrow> error + (int list \<times> int)" where
  \<comment> \<open>the body of \<^verbatim>\<open>for i in range(n, 0, -1)\<close> on (allocations, c)\<close>
  "backtrack_step demands dp i st =
     (case st of (allocations, c) \<Rightarrow>
      then_do (item dp i) (\<lambda>row.
      then_do (item row c) (\<lambda>x.
      then_do (item dp (i - 1)) (\<lambda>prev.
      then_do (item prev c) (\<lambda>y.
      if x \<noteq> y then
        then_do (set_item allocations (i - 1) 1) (\<lambda>allocations'.
        then_do (item demands (i - 1)) (\<lambda>d.
        Inr (allocations', c - d)))
      else Inr (allocations, c))))))"

definition optimal_bandwidth_allocation ::
  "int list \<Rightarrow> real list \<Rightarrow> int \<Rightarrow> error + (int list \<times> real)" where
  \<comment> \<open>the table starts as n + 1 rows of capacity + 1 zeros (no column when the capacity is
      negative); \<^verbatim>\<open>range(n, 0, -1)\<close> is \<^verbatim>\<open>range(1, n + 1)\<close> backwards\<close>
  "optimal_bandwidth_allocation demands utilities capacity =
     (let n = int (length demands);
          dp0 = replicate (nat (n + 1)) (replicate (nat (capacity + 1)) 0)
      in
      then_do (fill_table demands utilities capacity dp0) (\<lambda>dp.
      then_do (for_loop (rev (range_py 1 (n + 1))) (backtrack_step demands dp)
                 (replicate (nat n) 0, capacity)) (\<lambda>st.
      then_do (item dp n) (\<lambda>row.
      then_do (item row capacity) (\<lambda>best.
      Inr (fst st, best))))))"

subsection \<open>Allocations, their demand and their utility\<close>

definition is_allocation :: "nat \<Rightarrow> int list \<Rightarrow> bool" where
  \<comment> \<open>a sequence of n values, each 0 or 1\<close>
  "is_allocation n xs \<longleftrightarrow> length xs = n \<and> list_all (\<lambda>x. x = 0 \<or> x = 1) xs"

definition accepted_demand :: "int list \<Rightarrow> int list \<Rightarrow> int" where
  \<comment> \<open>the sum of \<^verbatim>\<open>demands[i]\<close> over the indices marked 1\<close>
  "accepted_demand demands xs = (\<Sum>i<length xs. if xs ! i = 1 then demands ! i else 0)"

definition accepted_utility :: "real list \<Rightarrow> int list \<Rightarrow> real" where
  \<comment> \<open>the sum of \<^verbatim>\<open>utilities[i]\<close> over the indices marked 1\<close>
  "accepted_utility utilities xs = (\<Sum>i<length xs. if xs ! i = 1 then utilities ! i else 0)"

definition feasible :: "int list \<Rightarrow> int \<Rightarrow> int list \<Rightarrow> bool" where
  "feasible demands capacity xs \<longleftrightarrow>
     is_allocation (length demands) xs \<and> accepted_demand demands xs \<le> capacity"

subsection \<open>The entries of the table\<close>

fun table_value :: "int list \<Rightarrow> real list \<Rightarrow> nat \<Rightarrow> int \<Rightarrow> real" where
  \<comment> \<open>what the two nested loops store at \<^verbatim>\<open>dp[i][c]\<close> (lemma \<open>fill_table_rows\<close>): row 0 keeps its
      initial 0.0, row i comes from row i-1 by the assignments of the loop body\<close>
  "table_value demands utilities 0 c = 0"
| "table_value demands utilities (Suc i) c =
     (if demands ! i \<le> c
      then max (table_value demands utilities i c)
               (table_value demands utilities i (c - demands ! i) + utilities ! i)
      else table_value demands utilities i c)"

definition cell_value :: "real list \<Rightarrow> int \<Rightarrow> real \<Rightarrow> nat \<Rightarrow> real" where
  \<comment> \<open>what one run of the inner loop body leaves at column \<open>j\<close>, from the row above\<close>
  "cell_value prev d u j =
     (if d \<le> int j then max (prev ! j) (prev ! nat (int j - d) + u) else prev ! j)"

definition table_shape :: "nat \<Rightarrow> nat \<Rightarrow> 'a list list \<Rightarrow> bool" where
  \<comment> \<open>a table of \<open>rows\<close> rows that all have \<open>cols\<close> entries\<close>
  "table_shape rows cols dp \<longleftrightarrow> length dp = rows \<and> list_all (\<lambda>row. length row = cols) dp"

section \<open>Basic facts about the Python primitives\<close>

lemma then_do_Inr [simp]: "then_do (Inr x) f = f x"
  by (simp add: then_do_def)

lemma then_do_Inl [simp]: "then_do (Inl e) f = Inl e"
  by (simp add: then_do_def)

lemma then_do_eq_Inr:
  "then_do m f = Inr y \<longleftrightarrow> (\<exists>x. m = Inr x \<and> f x = Inr y)"
  by (cases m) simp_all

lemma item_in_range:
  "0 \<le> i \<Longrightarrow> i < int (length xs) \<Longrightarrow> item xs i = Inr (xs ! nat i)"
  by (simp add: item_def)


lemma item_empty [simp]: "item [] i = Inl IndexError"
  by (simp add: item_def)


lemma for_loop_append:
  "for_loop (xs @ ys) body s = then_do (for_loop xs body s) (for_loop ys body)"
proof (induction xs arbitrary: s)
  case Nil
  show ?case by simp
next
  case (Cons x xs)
  show ?case
    by (cases "body x s") (simp_all add: Cons.IH)
qed

lemma range_py_empty [simp]: "b \<le> a \<Longrightarrow> range_py a b = []"
  by (simp add: range_py_def)

lemma range_py_snoc: "a \<le> b \<Longrightarrow> range_py a (b + 1) = range_py a b @ [b]"
proof -
  assume "a \<le> b"
  then have "nat (b + 1 - a) = Suc (nat (b - a))"
    by simp
  then show ?thesis
    using \<open>a \<le> b\<close> by (simp add: range_py_def)
qed

lemma set_range_py [simp]: "set (range_py a b) = {a..<b}"
proof -
  have "set (range_py a b) = (\<lambda>k. a + int k) ` {0..<nat (b - a)}"
    by (simp add: range_py_def)
  also have "\<dots> = {a..<b}"
  proof (rule set_eqI)
    fix x
    show "x \<in> (\<lambda>k. a + int k) ` {0..<nat (b - a)} \<longleftrightarrow> x \<in> {a..<b}"
    proof
      assume "x \<in> (\<lambda>k. a + int k) ` {0..<nat (b - a)}"
      then show "x \<in> {a..<b}" by auto
    next
      assume x: "x \<in> {a..<b}"
      then have "x = a + int (nat (x - a))" "nat (x - a) \<in> {0..<nat (b - a)}"
        by auto
      then show "x \<in> (\<lambda>k. a + int k) ` {0..<nat (b - a)}"
        by (rule image_eqI)
    qed
  qed
  finally show ?thesis .
qed

lemma distinct_range_py [simp]: "distinct (range_py a b)"
  by (simp add: range_py_def distinct_map inj_on_def)

lemma length_range_py [simp]: "length (range_py a b) = nat (b - a)"
  by (simp add: range_py_def)




lemma accepted_demand_zeros [simp]: "accepted_demand ds (replicate n 0) = 0"
  by (simp add: accepted_demand_def)

lemma accepted_utility_zeros [simp]: "accepted_utility us (replicate n 0) = 0"
  by (simp add: accepted_utility_def)



section \<open>The greedy loop\<close>





lemma comprehension_Inr_iff:
  "comprehension f xs = Inr ys \<longleftrightarrow> list_all2 (\<lambda>x y. f x = Inr y) xs ys"
proof (induction xs arbitrary: ys)
  case Nil
  show ?case by auto
next
  case (Cons x xs)
  show ?case
    by (cases ys) (auto simp: then_do_eq_Inr Cons.IH)
qed







subsection \<open>The greedy allocator on a well-formed instance\<close>



section \<open>Filling the table\<close>

lemma table_shape_row:
  "table_shape rows cols dp \<Longrightarrow> r < rows \<Longrightarrow> length (dp ! r) = cols"
  by (simp add: table_shape_def list_all_length)

lemma table_shape_update:
  assumes "table_shape rows cols dp" and "length row = cols"
  shows "table_shape rows cols (dp[r := row])"
  using assms
  by (auto simp: table_shape_def list_all_iff dest: set_update_subset_insert [THEN subsetD])

lemma item_nat: "k < length xs \<Longrightarrow> item xs (int k) = Inr (xs ! k)"
  by (simp add: item_def)

lemma set_item_nat: "k < length xs \<Longrightarrow> set_item xs (int k) v = Inr (xs[k := v])"
  by (simp add: set_item_def)

lemma set_cell_in_range:
  assumes "table_shape rows cols dp" "r < rows" "j < cols"
  shows "set_cell dp (int r) (int j) v = Inr (dp[r := (dp ! r)[j := v]])"
proof -
  from assms have "length dp = rows" "length (dp ! r) = cols"
    by (simp_all add: table_shape_def table_shape_row)
  with assms(2,3) show ?thesis
    by (simp add: set_cell_def item_nat set_item_nat)
qed

lemma fill_cell_in_range:
  assumes shape: "table_shape rows cols dp"
    and k: "Suc k < rows" "k < length ds"
    and j: "j < cols"
    and d: "0 \<le> ds ! k"
    and u: "ds ! k \<le> int j \<longrightarrow> k < length us"
  shows "fill_cell ds us (int (Suc k)) (int j) dp
           = Inr (dp[Suc k := (dp ! Suc k)[j := cell_value (dp ! k) (ds ! k) (us ! k) j]])"
proof -
  let ?dp1 = "dp[Suc k := (dp ! Suc k)[j := dp ! k ! j]]"
  have len: "length dp = rows" "length (dp ! k) = cols" "length (dp ! Suc k) = cols"
    using shape k(1) by (simp_all add: table_shape_def table_shape_row)
  have shape1: "table_shape rows cols ?dp1"
    using shape by (rule table_shape_update) (simp add: len)
  have prev: "item dp (int (Suc k) - 1) = Inr (dp ! k)"
    using k(1) len by (simp add: item_in_range)
  have skip: "item (dp ! k) (int j) = Inr (dp ! k ! j)"
    using j len by (simp add: item_in_range)
  have s1: "set_cell dp (int (Suc k)) (int j) (dp ! k ! j) = Inr ?dp1"
    using shape k(1) j by (rule set_cell_in_range)
  have dem: "item ds (int (Suc k) - 1) = Inr (ds ! k)"
    using k(2) by (simp add: item_in_range)
  show ?thesis
  proof (cases "ds ! k \<le> int j")
    case False
    then show ?thesis
      by (simp add: fill_cell_def prev skip s1 dem cell_value_def del: of_nat_Suc)
  next
    case True
    let ?c' = "nat (int j - ds ! k)"
    have c': "0 \<le> int j - ds ! k" "int j - ds ! k < int cols"
      using True d j by simp_all
    have row: "item ?dp1 (int (Suc k)) = Inr ((dp ! Suc k)[j := dp ! k ! j])"
      using k(1) len by (simp add: item_nat del: of_nat_Suc)
    have cur: "item ((dp ! Suc k)[j := dp ! k ! j]) (int j) = Inr (dp ! k ! j)"
      using j len by (simp add: item_nat)
    have prev1: "item ?dp1 (int (Suc k) - 1) = Inr (dp ! k)"
      using k(1) len by (simp add: item_in_range)
    have rest: "item (dp ! k) (int j - ds ! k) = Inr (dp ! k ! ?c')"
      using c' len by (simp add: item_in_range)
    have ut: "item us (int (Suc k) - 1) = Inr (us ! k)"
      using True u by (simp add: item_in_range)
    have s2: "set_cell ?dp1 (int (Suc k)) (int j) v
                = Inr (?dp1[Suc k := (?dp1 ! Suc k)[j := v]])" for v
      using shape1 k(1) j by (rule set_cell_in_range)
    show ?thesis
      using True k(1) len
      by (simp add: fill_cell_def prev skip s1 dem row cur prev1 rest ut s2 cell_value_def del: of_nat_Suc)
  qed
qed

lemma then_do_return [simp]: "then_do m Inr = m"
  by (cases m) simp_all

lemma for_loop_snoc:
  "for_loop (xs @ [x]) body s = then_do (for_loop xs body s) (body x)"
proof -
  have "for_loop [] body = Inr"
    by (rule ext) simp
  then have "for_loop [x] body = body x"
    by (intro ext) simp
  then show ?thesis
    by (simp add: for_loop_append)
qed

lemma range_py_Suc: "range_py a (a + int (Suc m)) = range_py a (a + int m) @ [a + int m]"
proof -
  have "a + int (Suc m) = (a + int m) + 1" by simp
  moreover have "range_py a ((a + int m) + 1) = range_py a (a + int m) @ [a + int m]"
    by (rule range_py_snoc) simp
  ultimately show ?thesis by (simp only:)
qed

lemma fill_row:
  assumes shape: "table_shape rows cols dp"
    and k: "Suc k < rows" "k < length ds"
    and d: "0 \<le> ds ! k"
    and u: "\<forall>j<m. ds ! k \<le> int j \<longrightarrow> k < length us"
    and m: "m \<le> cols"
  shows "\<exists>dp'. for_loop (range_py 0 (int m)) (fill_cell ds us (int (Suc k))) dp = Inr dp' \<and>
           table_shape rows cols dp' \<and>
           (\<forall>r. r \<noteq> Suc k \<longrightarrow> dp' ! r = dp ! r) \<and>
           (\<forall>j<m. dp' ! Suc k ! j = cell_value (dp ! k) (ds ! k) (us ! k) j)"
  using u m
proof (induction m)
  case 0
  with shape show ?case by simp
next
  case (Suc m)
  from Suc.prems have "\<forall>j<m. ds ! k \<le> int j \<longrightarrow> k < length us" "m \<le> cols"
    by (auto simp: less_Suc_eq)
  from Suc.IH [OF this] obtain dp1 where dp1:
    "for_loop (range_py 0 (int m)) (fill_cell ds us (int (Suc k))) dp = Inr dp1"
    "table_shape rows cols dp1"
    "\<forall>r. r \<noteq> Suc k \<longrightarrow> dp1 ! r = dp ! r"
    "\<forall>j<m. dp1 ! Suc k ! j = cell_value (dp ! k) (ds ! k) (us ! k) j"
    by blast
  let ?v = "cell_value (dp ! k) (ds ! k) (us ! k) m"
  let ?dp2 = "dp1[Suc k := (dp1 ! Suc k)[m := ?v]]"
  have mc: "m < cols" using Suc.prems by simp
  have um: "ds ! k \<le> int m \<longrightarrow> k < length us" using Suc.prems(1) by (metis lessI)
  have same: "dp1 ! k = dp ! k" using dp1(3) by simp
  have len: "length dp1 = rows" "length (dp1 ! Suc k) = cols"
    using dp1(2) k(1) by (simp_all add: table_shape_def table_shape_row)
  have cell: "fill_cell ds us (int (Suc k)) (int m) dp1 = Inr ?dp2"
    using fill_cell_in_range [OF dp1(2) k mc d um] by (simp only: same)
  have "range_py 0 (int (Suc m)) = range_py 0 (int m) @ [int m]"
    using range_py_Suc [of 0 m] by (simp only: add_0)
  then have loop:
    "for_loop (range_py 0 (int (Suc m))) (fill_cell ds us (int (Suc k))) dp = Inr ?dp2"
    by (simp only: for_loop_snoc dp1(1) then_do_Inr cell)
  have shape2: "table_shape rows cols ?dp2"
    using dp1(2) by (rule table_shape_update) (simp add: len)
  have others: "\<forall>r. r \<noteq> Suc k \<longrightarrow> ?dp2 ! r = dp ! r"
    using dp1(3) by simp
  have row: "\<forall>j<Suc m. ?dp2 ! Suc k ! j = cell_value (dp ! k) (ds ! k) (us ! k) j"
  proof (intro allI impI)
    fix j assume "j < Suc m"
    then consider "j = m" | "j < m" by linarith
    then show "?dp2 ! Suc k ! j = cell_value (dp ! k) (ds ! k) (us ! k) j"
    proof cases
      case 1
      then show ?thesis using k(1) len mc by simp
    next
      case 2
      then show ?thesis using k(1) len dp1(4) by simp
    qed
  qed
  from loop shape2 others row show ?case by blast
qed

lemma cell_value_table:
  assumes prev: "\<forall>j<cols. prev ! j = table_value ds us k (int j)"
    and "j < cols" "0 \<le> ds ! k"
  shows "cell_value prev (ds ! k) (us ! k) j = table_value ds us (Suc k) (int j)"
proof (cases "ds ! k \<le> int j")
  case False
  with assms show ?thesis by (simp add: cell_value_def)
next
  case True
  let ?c = "nat (int j - ds ! k)"
  have "?c < cols" "int ?c = int j - ds ! k"
    using True assms(2,3) by simp_all
  with prev have "prev ! ?c = table_value ds us k (int j - ds ! k)"
    by metis
  with True assms show ?thesis by (simp add: cell_value_def)
qed

lemma fill_rows:
  assumes shape: "table_shape (Suc (length ds)) cols dp"
    and zero: "\<forall>j<cols. dp ! 0 ! j = 0"
  shows "k \<le> length ds \<Longrightarrow> \<forall>i<k. 0 \<le> ds ! i \<Longrightarrow>
         \<forall>i<k. ds ! i < int cols \<longrightarrow> i < length us \<Longrightarrow>
         \<exists>dp'. for_loop (range_py 1 (1 + int k))
                  (\<lambda>i. for_loop (range_py 0 (int cols)) (fill_cell ds us i)) dp = Inr dp' \<and>
           table_shape (Suc (length ds)) cols dp' \<and>
           (\<forall>i\<le>k. \<forall>j<cols. dp' ! i ! j = table_value ds us i (int j))"
proof (induction k)
  case 0
  with shape zero show ?case by simp
next
  case (Suc k)
  then have kn: "k < length ds" "k \<le> length ds" by simp_all
  from Suc.prems have d: "\<forall>i<k. 0 \<le> ds ! i"
    and u: "\<forall>i<k. ds ! i < int cols \<longrightarrow> i < length us"
    by (auto simp: less_Suc_eq)
  from Suc.IH [OF kn(2) d u] obtain dp1 where dp1:
    "for_loop (range_py 1 (1 + int k))
       (\<lambda>i. for_loop (range_py 0 (int cols)) (fill_cell ds us i)) dp = Inr dp1"
    "table_shape (Suc (length ds)) cols dp1"
    "\<forall>i\<le>k. \<forall>j<cols. dp1 ! i ! j = table_value ds us i (int j)"
    by blast
  have dk: "0 \<le> ds ! k" using Suc.prems(2) by (metis lessI)
  have "ds ! k < int cols \<longrightarrow> k < length us" using Suc.prems(3) by (metis lessI)
  then have uk: "\<forall>j<cols. ds ! k \<le> int j \<longrightarrow> k < length us"
    by auto
  have sk: "Suc k < Suc (length ds)" using kn by simp
  from fill_row [OF dp1(2) sk kn(1) dk uk order_refl] obtain dp2 where dp2:
    "for_loop (range_py 0 (int cols)) (fill_cell ds us (int (Suc k))) dp1 = Inr dp2"
    "table_shape (Suc (length ds)) cols dp2"
    "\<forall>r. r \<noteq> Suc k \<longrightarrow> dp2 ! r = dp1 ! r"
    "\<forall>j<cols. dp2 ! Suc k ! j = cell_value (dp1 ! k) (ds ! k) (us ! k) j"
    by blast
  have idx: "1 + int k = int (Suc k)" by simp
  have loop: "for_loop (range_py 1 (1 + int (Suc k)))
       (\<lambda>i. for_loop (range_py 0 (int cols)) (fill_cell ds us i)) dp = Inr dp2"
    by (simp only: range_py_Suc for_loop_snoc dp1(1) then_do_Inr) (simp only: idx dp2(1))
  have vals: "\<forall>i\<le>Suc k. \<forall>j<cols. dp2 ! i ! j = table_value ds us i (int j)"
  proof (intro allI impI)
    fix i j assume i: "i \<le> Suc k" and j: "j < cols"
    show "dp2 ! i ! j = table_value ds us i (int j)"
    proof (cases "i = Suc k")
      case False
      with i have "i \<le> k" by simp
      with dp1(3) j dp2(3) False show ?thesis by simp
    next
      case True
      have "\<forall>j<cols. dp1 ! k ! j = table_value ds us k (int j)"
        using dp1(3) by simp
      then have "cell_value (dp1 ! k) (ds ! k) (us ! k) j = table_value ds us (Suc k) (int j)"
        using j dk by (rule cell_value_table)
      with dp2(4) j True show ?thesis by simp
    qed
  qed
  from loop dp2(2) vals show ?case by blast
qed

section \<open>Walking back through the table\<close>

lemma rev_range_py_Suc:
  "rev (range_py a (a + int (Suc m))) = (a + int m) # rev (range_py a (a + int m))"
  by (simp only: range_py_Suc rev_append rev.simps append.simps)

lemma table_value_changed:
  assumes "table_value ds us (Suc k) c \<noteq> table_value ds us k c"
  shows "ds ! k \<le> c"
    and "table_value ds us (Suc k) c = table_value ds us k (c - ds ! k) + us ! k"
  using assms by (auto simp: max_def split: if_splits)

lemma backtrack_step_in_range:
  assumes shape: "table_shape (Suc (length ds)) cols dp"
    and vals: "\<forall>i\<le>length ds. \<forall>j<cols. dp ! i ! j = table_value ds us i (int j)"
    and k: "k < length ds"
    and c: "0 \<le> c" "c < int cols"
    and len: "length alloc = length ds"
  shows "backtrack_step ds dp (int (Suc k)) (alloc, c)
           = (if table_value ds us (Suc k) c \<noteq> table_value ds us k c
              then Inr (alloc[k := 1], c - ds ! k) else Inr (alloc, c))"
proof -
  have l: "length dp = Suc (length ds)" "length (dp ! Suc k) = cols" "length (dp ! k) = cols"
    using shape k by (simp_all add: table_shape_def table_shape_row)
  have j: "nat c < cols" "int (nat c) = c" using c by simp_all
  have row: "item dp (int (Suc k)) = Inr (dp ! Suc k)"
    using k l by (simp add: item_nat del: of_nat_Suc)
  have x: "item (dp ! Suc k) c = Inr (table_value ds us (Suc k) c)"
    using vals k j c l by (simp add: item_in_range del: table_value.simps)
  have prev: "item dp (int (Suc k) - 1) = Inr (dp ! k)"
    using k l by (simp add: item_nat)
  have y: "item (dp ! k) c = Inr (table_value ds us k c)"
    using vals k j c l by (simp add: item_in_range)
  have a: "set_item alloc (int (Suc k) - 1) 1 = Inr (alloc[k := 1])"
    using k len by (simp add: set_item_nat)
  have d: "item ds (int (Suc k) - 1) = Inr (ds ! k)"
    using k by (simp add: item_nat)
  show ?thesis
    by (simp add: backtrack_step_def row x prev y a d del: of_nat_Suc table_value.simps)
qed

lemma backtrack_loop:
  assumes shape: "table_shape (Suc (length ds)) cols dp"
    and vals: "\<forall>i\<le>length ds. \<forall>j<cols. dp ! i ! j = table_value ds us i (int j)"
    and d: "\<forall>i<length ds. 0 \<le> ds ! i"
  shows "k \<le> length ds \<Longrightarrow> 0 \<le> c \<Longrightarrow> c < int cols \<Longrightarrow> length alloc = length ds \<Longrightarrow>
         \<forall>j<k. alloc ! j = 0 \<Longrightarrow>
         \<exists>alloc' c'.
           for_loop (rev (range_py 1 (1 + int k))) (backtrack_step ds dp) (alloc, c)
             = Inr (alloc', c') \<and>
           length alloc' = length ds \<and>
           (\<forall>j. k \<le> j \<longrightarrow> alloc' ! j = alloc ! j) \<and>
           (\<forall>j<k. alloc' ! j = 0 \<or> alloc' ! j = 1) \<and>
           (\<Sum>j<k. if alloc' ! j = 1 then ds ! j else 0) = c - c' \<and> 0 \<le> c' \<and>
           (\<Sum>j<k. if alloc' ! j = 1 then us ! j else 0) = table_value ds us k c"
proof (induction k arbitrary: alloc c)
  case 0
  then show ?case by simp
next
  case (Suc k)
  then have kn: "k < length ds" "k \<le> length ds" by simp_all
  have dk: "0 \<le> ds ! k" using d kn by simp
  note step = backtrack_step_in_range [OF shape vals kn(1) Suc.prems(2,3,4)]
  have unfold: "for_loop (rev (range_py 1 (1 + int (Suc k)))) (backtrack_step ds dp) (alloc, c)
      = then_do (backtrack_step ds dp (int (Suc k)) (alloc, c))
          (for_loop (rev (range_py 1 (1 + int k))) (backtrack_step ds dp))"
  proof -
    have "1 + int k = int (Suc k)" by simp
    then show ?thesis
      by (simp only: rev_range_py_Suc for_loop.simps)
  qed
  show ?case
  proof (cases "table_value ds us (Suc k) c \<noteq> table_value ds us k c")
    case False
    from Suc.prems have z: "\<forall>j<k. alloc ! j = 0" and zk: "alloc ! k = 0" by simp_all
    from Suc.IH [OF kn(2) Suc.prems(2,3,4) z] obtain alloc' c' where r:
      "for_loop (rev (range_py 1 (1 + int k))) (backtrack_step ds dp) (alloc, c)
         = Inr (alloc', c')"
      "length alloc' = length ds"
      "\<forall>j. k \<le> j \<longrightarrow> alloc' ! j = alloc ! j"
      "\<forall>j<k. alloc' ! j = 0 \<or> alloc' ! j = 1"
      "(\<Sum>j<k. if alloc' ! j = 1 then ds ! j else 0) = c - c'" "0 \<le> c'"
      "(\<Sum>j<k. if alloc' ! j = 1 then us ! j else 0) = table_value ds us k c"
      by blast
    have k0: "alloc' ! k = 0" using r(3) zk by simp
    have "for_loop (rev (range_py 1 (1 + int (Suc k)))) (backtrack_step ds dp) (alloc, c)
            = Inr (alloc', c')"
      using False by (simp only: unfold step if_False then_do_Inr r(1))
    moreover have "\<forall>j. Suc k \<le> j \<longrightarrow> alloc' ! j = alloc ! j"
      using r(3) by simp
    moreover have "\<forall>j<Suc k. alloc' ! j = 0 \<or> alloc' ! j = 1"
      using r(4) k0 by (simp add: less_Suc_eq)
    moreover have "(\<Sum>j<Suc k. if alloc' ! j = 1 then ds ! j else 0) = c - c'"
      using r(5) k0 by simp
    moreover have "(\<Sum>j<Suc k. if alloc' ! j = 1 then us ! j else 0)
                     = table_value ds us (Suc k) c"
      using r(7) k0 False by (simp del: table_value.simps)
    ultimately show ?thesis using r(2,6) by blast
  next
    case True
    note t = table_value_changed [OF True]
    let ?a = "alloc[k := 1]"
    let ?c = "c - ds ! k"
    have c1: "0 \<le> ?c" "?c < int cols" using t(1) dk Suc.prems(3) by simp_all
    have la: "length ?a = length ds" using Suc.prems(4) by simp
    have z: "\<forall>j<k. ?a ! j = 0" using Suc.prems(5) by simp
    from Suc.IH [OF kn(2) c1 la z] obtain alloc' c' where r:
      "for_loop (rev (range_py 1 (1 + int k))) (backtrack_step ds dp) (?a, ?c)
         = Inr (alloc', c')"
      "length alloc' = length ds"
      "\<forall>j. k \<le> j \<longrightarrow> alloc' ! j = ?a ! j"
      "\<forall>j<k. alloc' ! j = 0 \<or> alloc' ! j = 1"
      "(\<Sum>j<k. if alloc' ! j = 1 then ds ! j else 0) = ?c - c'" "0 \<le> c'"
      "(\<Sum>j<k. if alloc' ! j = 1 then us ! j else 0) = table_value ds us k ?c"
      by blast
    have k1: "alloc' ! k = 1" using r(3) kn(1) Suc.prems(4) by simp
    have "backtrack_step ds dp (int (Suc k)) (alloc, c) = Inr (?a, ?c)"
      unfolding step using True by (simp del: table_value.simps)
    then have "for_loop (rev (range_py 1 (1 + int (Suc k)))) (backtrack_step ds dp) (alloc, c)
            = Inr (alloc', c')"
      by (simp only: unfold then_do_Inr r(1))
    moreover have "\<forall>j. Suc k \<le> j \<longrightarrow> alloc' ! j = alloc ! j"
      using r(3) by simp
    moreover have "\<forall>j<Suc k. alloc' ! j = 0 \<or> alloc' ! j = 1"
      using r(4) k1 by (simp add: less_Suc_eq)
    moreover have "(\<Sum>j<Suc k. if alloc' ! j = 1 then ds ! j else 0) = c - c'"
      using r(5) k1 by simp
    moreover have "(\<Sum>j<Suc k. if alloc' ! j = 1 then us ! j else 0)
                     = table_value ds us (Suc k) c"
      using r(7) k1 t(2) by (simp del: table_value.simps)
    ultimately show ?thesis using r(2,6) by blast
  qed
qed

section \<open>No selection beats a table entry\<close>

lemma table_value_upper:
  fixes xs :: "int list"
  assumes "\<forall>i<k. 0 \<le> ds ! i"
    and "(\<Sum>j<k. if xs ! j = 1 then ds ! j else 0) \<le> c"
  shows "(\<Sum>j<k. if xs ! j = 1 then us ! j else 0) \<le> table_value ds us k c"
  using assms
proof (induction k arbitrary: c)
  case 0
  show ?case by simp
next
  case (Suc k)
  let ?D = "\<Sum>j<k. if xs ! j = 1 then ds ! j else 0"
  let ?U = "\<Sum>j<k. if xs ! j = 1 then us ! j else 0"
  from Suc.prems have nonneg: "\<forall>i<k. 0 \<le> ds ! i" by simp
  then have D0: "0 \<le> ?D" by (intro sum_nonneg) simp
  show ?case
  proof (cases "xs ! k = 1")
    case False
    with Suc.prems have "?D \<le> c" by simp
    with nonneg have "?U \<le> table_value ds us k c" by (rule Suc.IH)
    with False show ?thesis by (simp add: le_max_iff_disj)
  next
    case True
    with Suc.prems have D: "?D \<le> c - ds ! k" by simp
    with nonneg have "?U \<le> table_value ds us k (c - ds ! k)" by (rule Suc.IH)
    moreover from D D0 have "ds ! k \<le> c" by simp
    ultimately show ?thesis using True by (simp add: le_max_iff_disj)
  qed
qed

section \<open>The exact allocator on a well-formed instance\<close>

lemma table_shape_initial [simp]:
  "table_shape rows cols (replicate rows (replicate cols v))"
  by (simp add: table_shape_def list_all_iff)

lemma fill_table_rows:
  assumes C: "0 \<le> C"
    and d: "\<forall>i<length ds. 0 \<le> ds ! i"
    and u: "\<forall>i<length ds. ds ! i \<le> C \<longrightarrow> i < length us"
  shows "\<exists>dp. fill_table ds us C
                 (replicate (Suc (length ds)) (replicate (nat (C + 1)) 0)) = Inr dp \<and>
           table_shape (Suc (length ds)) (nat (C + 1)) dp \<and>
           (\<forall>i\<le>length ds. \<forall>j<nat (C + 1). dp ! i ! j = table_value ds us i (int j))"
proof -
  let ?cols = "nat (C + 1)"
  let ?dp0 = "replicate (Suc (length ds)) (replicate ?cols (0::real))"
  have cols: "int ?cols = C + 1" using C by simp
  have zero: "\<forall>j<?cols. ?dp0 ! 0 ! j = 0" by simp
  have u': "\<forall>i<length ds. ds ! i < int ?cols \<longrightarrow> i < length us"
    using u cols by simp
  from fill_rows [OF table_shape_initial zero order_refl d u']
  show ?thesis
    by (simp only: fill_table_def cols add.commute [of "int (length ds)" 1])
qed

lemma optimal_result:
  assumes C: "0 \<le> C"
    and d: "\<forall>i<length ds. 0 \<le> ds ! i"
    and u: "\<forall>i<length ds. ds ! i \<le> C \<longrightarrow> i < length us"
  shows "\<exists>xs. optimal_bandwidth_allocation ds us C
                  = Inr (xs, table_value ds us (length ds) C) \<and>
           is_allocation (length ds) xs \<and>
           accepted_demand ds xs \<le> C \<and>
           accepted_utility us xs = table_value ds us (length ds) C"
proof -
  let ?n = "length ds"
  let ?cols = "nat (C + 1)"
  from fill_table_rows [OF assms] obtain dp where dp:
    "fill_table ds us C (replicate (Suc ?n) (replicate ?cols 0)) = Inr dp"
    "table_shape (Suc ?n) ?cols dp"
    "\<forall>i\<le>?n. \<forall>j<?cols. dp ! i ! j = table_value ds us i (int j)"
    by blast
  have c: "0 \<le> C" "C < int ?cols" using C by simp_all
  have z: "\<forall>j<?n. replicate ?n (0::int) ! j = 0" by simp
  have lr: "length (replicate ?n (0::int)) = ?n" by simp
  from backtrack_loop [OF dp(2,3) d order_refl c lr z] obtain xs c' where r:
    "for_loop (rev (range_py 1 (1 + int ?n))) (backtrack_step ds dp) (replicate ?n 0, C)
       = Inr (xs, c')"
    "length xs = ?n"
    "\<forall>j<?n. xs ! j = 0 \<or> xs ! j = 1"
    "(\<Sum>j<?n. if xs ! j = 1 then ds ! j else 0) = C - c'" "0 \<le> c'"
    "(\<Sum>j<?n. if xs ! j = 1 then us ! j else 0) = table_value ds us ?n C"
    by auto
  have l: "length dp = Suc ?n" "length (dp ! ?n) = ?cols"
    using dp(2) by (simp_all add: table_shape_def table_shape_row)
  have row: "item dp (int ?n) = Inr (dp ! ?n)"
    using l by (simp add: item_nat)
  have nC: "nat C < ?cols" "int (nat C) = C" using C by simp_all
  from dp(3) nC(1) have "dp ! ?n ! nat C = table_value ds us ?n (int (nat C))"
    by blast
  then have "dp ! ?n ! nat C = table_value ds us ?n C"
    by (simp only: nC(2))
  then have best: "item (dp ! ?n) C = Inr (table_value ds us ?n C)"
    using c l by (simp add: item_in_range)
  have n1: "nat (int ?n + 1) = Suc ?n" by simp
  have loop: "for_loop (rev (range_py 1 (int ?n + 1))) (backtrack_step ds dp)
                (replicate ?n 0, C) = Inr (xs, c')"
    using r(1) by (simp only: add.commute [of 1 "int ?n"])
  have "optimal_bandwidth_allocation ds us C = Inr (xs, table_value ds us ?n C)"
    unfolding optimal_bandwidth_allocation_def Let_def n1 nat_int dp(1) then_do_Inr loop row best
    by simp
  moreover have "is_allocation ?n xs"
    using r(2,3) by (simp add: is_allocation_def list_all_length)
  moreover have "accepted_demand ds xs \<le> C"
    using r(2,4,5) by (simp add: accepted_demand_def)
  moreover have "accepted_utility us xs = table_value ds us ?n C"
    using r(2,6) by (simp add: accepted_utility_def)
  ultimately show ?thesis by blast
qed

lemma feasible_upper:
  assumes d: "\<forall>i<length ds. 0 \<le> ds ! i" and f: "feasible ds C ys"
  shows "accepted_utility us ys \<le> table_value ds us (length ds) C"
proof -
  from f have "length ys = length ds" "accepted_demand ds ys \<le> C"
    by (simp_all add: feasible_def is_allocation_def)
  then have "(\<Sum>j<length ds. if ys ! j = 1 then ds ! j else 0) \<le> C"
    by (simp add: accepted_demand_def)
  with d have "(\<Sum>j<length ds. if ys ! j = 1 then us ! j else 0)
                 \<le> table_value ds us (length ds) C"
    by (rule table_value_upper)
  with \<open>length ys = length ds\<close> show ?thesis
    by (simp add: accepted_utility_def)
qed

section \<open>Well-formed instances\<close>




section \<open>When the allocators raise\<close>











subsection \<open>The greedy allocator raises\<close>






subsection \<open>The exact allocator raises\<close>












section \<open>The claims\<close>







text \<open>
  C4. The claim: on a well-formed instance the greedy total is at least half of the
  exact total. The greedy allocator has no comparison with the best single candidate,
  and on demands [1, 10], utilities [2.0, 10.0], capacity 10 it accepts only index 0:
  it returns 2.0 where the exact allocator returns 10.0.
\<close>

theorem C4_greedy_below_half:
  "greedy_bandwidth_allocation [1, 10] [2, 10] 10 = Inr ([1, 0], 2) \<and>
   optimal_bandwidth_allocation [1, 10] [2, 10] 10 = Inr ([0, 1], 10) \<and>
   (2::real) < 10 / 2"
  by code_simp




text \<open>
  C6. The claim: on demands [5, 3, 4, 6, 2], utilities [10.0, 6.0, 8.0, 15.0, 5.0],
  capacity 10 the exact allocator returns the maximum 24.0, reached by the indices 1
  and 3. The exact allocator returns 23.0, and the indices 1 and 3 give 21.0.
\<close>

theorem C6_counterexample:
  "optimal_bandwidth_allocation [5, 3, 4, 6, 2] [10, 6, 8, 15, 5] 10
     = Inr ([0, 0, 1, 1, 0], 23) \<and>
   (23::real) \<noteq> 24 \<and>
   accepted_utility [10, 6, 8, 15, 5] [0, 1, 0, 1, 0] = 21 \<and> (21::real) \<noteq> 24"
  by code_simp

text \<open>
  C6 as amended: on that instance both allocators return a feasible allocation (the
  greedy one the indices 3 and 4 with total 20.0), and the total utility of the exact
  allocator is the maximum over all feasible 0/1 allocations, which is 23.0, reached by
  the indices 2 and 3.
\<close>

theorem C6_scenario_4:
  "greedy_bandwidth_allocation [5, 3, 4, 6, 2] [10, 6, 8, 15, 5] 10
     = Inr ([0, 0, 0, 1, 1], 20) \<and>
   feasible [5, 3, 4, 6, 2] 10 [0, 0, 0, 1, 1] \<and>
   optimal_bandwidth_allocation [5, 3, 4, 6, 2] [10, 6, 8, 15, 5] 10
     = Inr ([0, 0, 1, 1, 0], 23) \<and>
   feasible [5, 3, 4, 6, 2] 10 [0, 0, 1, 1, 0] \<and>
   accepted_utility [10, 6, 8, 15, 5] [0, 0, 1, 1, 0] = 23 \<and>
   (\<forall>ys. feasible [5, 3, 4, 6, 2] 10 ys \<longrightarrow> accepted_utility [10, 6, 8, 15, 5] ys \<le> 23)"
proof -
  let ?ds = "[5, 3, 4, 6, 2] :: int list"
  let ?us = "[10, 6, 8, 15, 5] :: real list"
  have g: "greedy_bandwidth_allocation ?ds ?us 10 = Inr ([0, 0, 0, 1, 1], 20)"
    by code_simp
  have fg: "feasible ?ds 10 [0, 0, 0, 1, 1]"
    by code_simp
  have e: "optimal_bandwidth_allocation ?ds ?us 10 = Inr ([0, 0, 1, 1, 0], 23)"
    by code_simp
  have fe: "feasible ?ds 10 [0, 0, 1, 1, 0]"
    by code_simp
  have ue: "accepted_utility ?us [0, 0, 1, 1, 0] = 23"
    by code_simp
  have d: "\<forall>i<length ?ds. 0 \<le> ?ds ! i"
    by (simp add: nth_Cons' less_Suc_eq)
  have u: "\<forall>i<length ?ds. ?ds ! i \<le> 10 \<longrightarrow> i < length ?us"
    by simp
  have C: "(0::int) \<le> 10" by simp
  from optimal_result [OF C d u] e have t: "table_value ?ds ?us (length ?ds) 10 = 23"
    by simp
  have "\<forall>ys. feasible ?ds 10 ys \<longrightarrow> accepted_utility ?us ys \<le> 23"
    using feasible_upper [OF d, of 10 _ ?us] unfolding t by blast
  with g fg e fe ue show ?thesis by blast
qed

theorem C6_scenario_4_witness:
  "feasible [5, 3, 4, 6, 2] 10 [0, 1, 0, 1, 0] \<and>
   accepted_utility [10, 6, 8, 15, 5] [0, 1, 0, 1, 0] \<le> 23"
proof -
  have f: "feasible [5, 3, 4, 6, 2] 10 [0, 1, 0, 1, 0]"
    by code_simp
  with C6_scenario_4 show ?thesis by blast
qed

text \<open>
  C7. On demands [1, 2], utilities [1.0, 2.0] and capacity 2 both candidates have
  efficiency 1.0. The greedy allocator keeps the input order among them, accepts index 0
  and returns ([1, 0], 1.0); the exact allocator returns ([0, 1], 2.0).
\<close>

theorem C7_pathological_case:
  "greedy_bandwidth_allocation [1, 2] [1, 2] 2 = Inr ([1, 0], 1) \<and>
   optimal_bandwidth_allocation [1, 2] [1, 2] 2 = Inr ([0, 1], 2) \<and>
   comprehension (efficiency [1, 2] [1, 2]) (range_py 0 2) = Inr [(0, 1), (1, 1)]"
  by code_simp







end
